theory Spec2Isabelle
  imports Main "HOL-Library.Sublist"
begin

text \<open>
  A shallow embedding of the process supervisor of the control panel: the module
  \<open>server_runner.py\<close> (the Log Buffer and the Output Pump, \<open>launch_server\<close>,
  \<open>stop_server\<close>, \<open>delete_server\<close>, \<open>get_logs\<close>, \<open>get_playit_status\<close>) and
  \<open>get_server_state\<close> of \<open>app.py\<close>. The definitions come first, then the properties.
\<close>

section \<open>Python strings\<close>

text \<open>
  A Python \<open>str\<close> whose code points are all below 256 is modelled as a \<open>string\<close>,
  one character for each code point. On these code points \<open>isspace\<close> is Python's
  \<open>str.isspace\<close>, \<open>is_linebreak\<close> gives the line boundaries of \<open>str.splitlines\<close>,
  and the character classes of the regular expressions are those of \<open>re\<close>.
  \<open>lower\<close> changes the ASCII capitals; \<open>str.lower\<close> also changes the capitals from
  \<open>0xC0\<close> to \<open>0xDE\<close>, into letters above \<open>0xDF\<close>, which no marker and no pattern
  of the source holds.
\<close>

definition isspace :: "char \<Rightarrow> bool" where
  \<comment> \<open>\<open>str.isspace\<close>: TAB, LF, VT, FF, CR, FS, GS, RS, US, the blank, NEL and the
      no-break space\<close>
  "isspace c = (c \<in> set [CHR 0x09, CHR 0x0A, CHR 0x0B, CHR 0x0C, CHR 0x0D,
                          CHR 0x1C, CHR 0x1D, CHR 0x1E, CHR 0x1F, CHR 0x20,
                          CHR 0x85, CHR 0xA0])"

definition strip :: "string \<Rightarrow> string" where
  \<comment> \<open>\<open>s.strip()\<close>: leading and trailing white space removed.\<close>
  "strip s = rev (dropWhile isspace (rev (dropWhile isspace s)))"

definition rstrip :: "string \<Rightarrow> string" where
  \<comment> \<open>\<open>s.rstrip()\<close>: only trailing white space removed (not called by the source; it is
      what the specification describes for the Output Pump).\<close>
  "rstrip s = rev (dropWhile isspace (rev s))"

definition is_upper :: "char \<Rightarrow> bool" where
  "is_upper c = (let n = (of_char c :: nat) in 65 \<le> n \<and> n \<le> 90)"

definition is_lower :: "char \<Rightarrow> bool" where
  "is_lower c = (let n = (of_char c :: nat) in 97 \<le> n \<and> n \<le> 122)"

definition is_digit :: "char \<Rightarrow> bool" where
  "is_digit c = (let n = (of_char c :: nat) in 48 \<le> n \<and> n \<le> 57)"

definition lower_char :: "char \<Rightarrow> char" where
  "lower_char c = (if is_upper c then char_of ((of_char c :: nat) + 32) else c)"

definition lower :: "string \<Rightarrow> string" where
  \<comment> \<open>\<open>s.lower()\<close>\<close>
  "lower s = map lower_char s"

fun startswith :: "string \<Rightarrow> string \<Rightarrow> bool" where
  \<comment> \<open>\<open>startswith s p\<close>: \<open>s.startswith(p)\<close>\<close>
  "startswith s [] = True"
| "startswith [] (p # ps) = False"
| "startswith (c # cs) (p # ps) = (c = p \<and> startswith cs ps)"

fun contains :: "string \<Rightarrow> string \<Rightarrow> bool" where
  \<comment> \<open>\<open>contains sub s\<close>: the Python test \<open>sub in s\<close>\<close>
  "contains sub [] = (sub = [])"
| "contains sub (c # cs) = (startswith (c # cs) sub \<or> contains sub cs)"

fun join :: "string \<Rightarrow> string list \<Rightarrow> string" where
  \<comment> \<open>\<open>sep.join(xs)\<close>\<close>
  "join sep [] = []"
| "join sep [x] = x"
| "join sep (x # y # ys) = x @ sep @ join sep (y # ys)"

definition is_linebreak :: "char \<Rightarrow> bool" where
  \<comment> \<open>the line boundaries of \<open>str.splitlines\<close>: LF, CR, VT, FF, FS, GS, RS, NEL\<close>
  "is_linebreak c =
     (c \<in> set [CHR 0x0A, CHR 0x0D, CHR 0x0B, CHR 0x0C, CHR 0x1C, CHR 0x1D, CHR 0x1E,
                 CHR 0x85])"

fun splitlines_from :: "string \<Rightarrow> string \<Rightarrow> string list" where
  \<comment> \<open>\<open>splitlines_from cur s\<close>: the lines of \<open>s\<close>, the first one prefixed by the
      characters \<open>cur\<close> already read; CR LF is one boundary; no empty last line.\<close>
  "splitlines_from cur [] = (if cur = [] then [] else [cur])"
| "splitlines_from cur (c # cs) =
     (if is_linebreak c then
        (case cs of
           d # ds \<Rightarrow> if c = CHR 0x0D \<and> d = CHR 0x0A then cur # splitlines_from [] ds
                     else cur # splitlines_from [] cs
         | [] \<Rightarrow> cur # splitlines_from [] cs)
      else splitlines_from (cur @ [c]) cs)"

definition splitlines :: "string \<Rightarrow> string list" where
  \<comment> \<open>\<open>s.splitlines()\<close>\<close>
  "splitlines s = splitlines_from [] s"

section \<open>Regular expressions of the tunnel parser\<close>

definition is_alnum :: "char \<Rightarrow> bool" where
  \<comment> \<open>the class \<open>[A-Za-z0-9]\<close>\<close>
  "is_alnum c = (is_upper c \<or> is_lower c \<or> is_digit c)"

definition is_label_char :: "char \<Rightarrow> bool" where
  \<comment> \<open>the class \<open>[A-Za-z0-9-]\<close>\<close>
  "is_label_char c = (is_alnum c \<or> c = CHR ''-'')"

fun ci_startswith :: "string \<Rightarrow> string \<Rightarrow> bool" where
  \<comment> \<open>a literal of a pattern compiled with \<open>re.IGNORECASE\<close>, matched at the start
      of \<open>s\<close>; \<open>pat\<close> is written in lower case\<close>
  "ci_startswith s [] = True"
| "ci_startswith [] (p # ps) = False"
| "ci_startswith (c # cs) (p # ps) = (if lower_char c = p then ci_startswith cs ps else False)"

definition match_domain :: "string \<Rightarrow> string option" where
  \<comment> \<open>\<open>[A-Za-z0-9-]+\.joinmc\.link\<close> matched at the start of \<open>s\<close>. The class
      excludes the dot, so of all the lengths the greedy \<open>+\<close> may fall back to only the
      longest run of class characters can be followed by the dot.\<close>
  "match_domain s =
     (let label = takeWhile is_label_char s; rest = dropWhile is_label_char s
      in if label \<noteq> [] \<and> ci_startswith rest ''.joinmc.link''
         then Some (label @ take (length ''.joinmc.link'') rest) else None)"

fun no_domain_before :: "string \<Rightarrow> string \<Rightarrow> bool" where
  \<comment> \<open>\<open>no_domain_before v t\<close>: in the line \<open>v @ t\<close> that pattern matches at no position
      inside \<open>v\<close>, so a domain the line holds at the start of \<open>t\<close> is its first\<close>
  "no_domain_before [] t = True"
| "no_domain_before (c # cs) t =
     (if match_domain (c # cs @ t) = None then no_domain_before cs t else False)"

definition match_joinmc :: "string \<Rightarrow> string option" where
  \<comment> \<open>\<open>(?:https?://)?([A-Za-z0-9-]+\.joinmc\.link)\<close> matched at the start of \<open>s\<close>;
      the result is group 1. The optional scheme is tried first, then skipped.\<close>
  "match_joinmc s =
     (case (if ci_startswith s ''https://'' then match_domain (drop (length ''https://'') s)
            else if ci_startswith s ''http://'' then match_domain (drop (length ''http://'') s)
            else None) of
        Some d \<Rightarrow> Some d
      | None \<Rightarrow> match_domain s)"

fun search_joinmc :: "string \<Rightarrow> string option" where
  \<comment> \<open>\<open>re.search\<close> of that pattern: the match at the leftmost position that has one\<close>
  "search_joinmc [] = None"
| "search_joinmc (c # cs) =
     (case match_joinmc (c # cs) of Some d \<Rightarrow> Some d | None \<Rightarrow> search_joinmc cs)"

definition match_claim :: "string \<Rightarrow> string option" where
  \<comment> \<open>\<open>https://playit\.gg/mc/[A-Za-z0-9]+\<close> matched at the start of \<open>s\<close>; the
      result is group 0, the whole match\<close>
  "match_claim s =
     (let n = length ''https://playit.gg/mc/''; code = takeWhile is_alnum (drop n s)
      in if ci_startswith s ''https://playit.gg/mc/'' \<and> code \<noteq> []
         then Some (take n s @ code) else None)"

fun search_claim :: "string \<Rightarrow> string option" where
  "search_claim [] = None"
| "search_claim (c # cs) =
     (case match_claim (c # cs) of Some u \<Rightarrow> Some u | None \<Rightarrow> search_claim cs)"

section \<open>Integers as text\<close>

definition digit_val :: "char \<Rightarrow> nat" where
  "digit_val c = of_char c - 48"

fun digits_from :: "nat \<Rightarrow> string \<Rightarrow> nat option" where
  \<comment> \<open>the digits after the first one; a single underscore may stand between two digits\<close>
  "digits_from acc [] = Some acc"
| "digits_from acc (c # cs) =
     (if is_digit c then digits_from (10 * acc + digit_val c) cs
      else if c = CHR ''_'' then
        (case cs of
           [] \<Rightarrow> None
         | d # ds \<Rightarrow> if is_digit d then digits_from (10 * acc + digit_val d) ds else None)
      else None)"

definition max_str_digits :: nat where
  \<comment> \<open>the interpreter's limit on the digits of a decimal literal given to \<open>int\<close>\<close>
  "max_str_digits = 4300"

definition parse_digits :: "string \<Rightarrow> nat option" where
  \<comment> \<open>an unsigned literal; its digits count against the limit, its underscores do not\<close>
  "parse_digits s =
     (case s of [] \<Rightarrow> None
      | c # cs \<Rightarrow>
          if is_digit c \<and> length (filter is_digit s) \<le> max_str_digits
          then digits_from (digit_val c) cs else None)"

definition int_space :: "char \<Rightarrow> bool" where
  \<comment> \<open>the white space \<open>int\<close> skips at both ends of its argument: among the ASCII
      characters TAB, LF, VT, FF, CR and the blank (not FS, GS, RS, US), above them the
      white space of \<open>str.isspace\<close>\<close>
  "int_space c = (c \<in> set [CHR 0x09, CHR 0x0A, CHR 0x0B, CHR 0x0C, CHR 0x0D, CHR 0x20,
                            CHR 0x85, CHR 0xA0])"

definition py_int :: "string \<Rightarrow> int option" where
  \<comment> \<open>\<open>int(s)\<close> in base ten, \<open>None\<close> for \<open>ValueError\<close>: surrounding white space, an
      optional sign, digits\<close>
  "py_int s =
     (case rev (dropWhile int_space (rev (dropWhile int_space s))) of
        [] \<Rightarrow> None
      | c # cs \<Rightarrow>
          if c = CHR ''-'' then map_option (\<lambda>n. - int n) (parse_digits cs)
          else if c = CHR ''+'' then map_option int (parse_digits cs)
          else map_option int (parse_digits (c # cs)))"

function show_nat :: "nat \<Rightarrow> string" where
  "show_nat n = (if n < 10 then [char_of (48 + n)]
                 else show_nat (n div 10) @ [char_of (48 + n mod 10)])"
  by pat_completeness auto
termination
  by (relation "measure id") auto

declare show_nat.simps [simp del]

definition show_int :: "int \<Rightarrow> string" where
  \<comment> \<open>\<open>str(i)\<close>, as an f-string formats an integer\<close>
  "show_int i = (if i < 0 then CHR ''-'' # show_nat (nat (- i)) else show_nat (nat i))"

section \<open>The supervisor's state\<close>

text \<open>
  Exceptions are values. The outcome of every call into the operating system (a write to
  the child's input, a wait, a kill, a spawn, a recursive removal) is an input of the
  model, carried by the process or by the world. The model is sequential: a child changes
  only through the calls the supervisor makes on it.
\<close>

datatype exn = AttributeError | TimeoutExpired | OSError

record process =
  argv :: "string list"          \<comment> \<open>the command line given to \<open>Popen\<close>\<close>
  exited :: bool                 \<comment> \<open>\<open>poll()\<close> is not \<open>None\<close>\<close>
  stdin_lines :: "string list"   \<comment> \<open>what was written to the child's input\<close>
  stdin_broken :: bool           \<comment> \<open>a write to the child's input raises\<close>
  stop_delay :: "nat option"     \<comment> \<open>time the child takes to exit once it reads \<open>stop\<close>\<close>
  kill_fails :: bool             \<comment> \<open>\<open>kill()\<close> raises\<close>
  kill_delay :: "nat option"     \<comment> \<open>time the child takes to exit once killed\<close>
  exit_in :: "nat option"        \<comment> \<open>time until the child exits, as things stand\<close>

datatype level = INFO | WARNING | ERROR

datatype message =
    AlreadyRunning          \<comment> \<open>Server is already running. Attempting to stop it first...\<close>
  | WaitTimeout             \<comment> \<open>Timeout while waiting for existing server to stop.\<close>
  | InvalidRam              \<comment> \<open>Invalid RAM value in ...; defaulting to 2 GB.\<close>
  | NonIntegerRam           \<comment> \<open>Non-integer RAM value in ...; defaulting to 2 GB.\<close>
  | Launched int            \<comment> \<open>Launched Minecraft server with ... GB RAM.\<close>
  | LaunchFailed exn        \<comment> \<open>Failed to launch Minecraft server: ...\<close>
  | NoProcess               \<comment> \<open>No server process is running.\<close>
  | StoppedGracefully       \<comment> \<open>Minecraft server stopped gracefully.\<close>
  | GracefulStopFailed exn  \<comment> \<open>Graceful stop failed (...); killing process...\<close>
  | Killed                  \<comment> \<open>Minecraft server killed.\<close>
  | KillError exn           \<comment> \<open>Error killing Minecraft process: ...\<close>
  | DeletedDir              \<comment> \<open>Deleted server directory: ...\<close>
  | DeleteFailed exn        \<comment> \<open>Failed to delete server directory ...\<close>

record runner =
  server_process :: "process option"    \<comment> \<open>the Process Handle\<close>
  server_output :: "string list"        \<comment> \<open>the Log Buffer, oldest line first\<close>
  logged :: "(level \<times> message) list"    \<comment> \<open>what \<open>logger\<close> has emitted, oldest first\<close>

datatype file_content = Missing | Unreadable | Text string

record world =
  dir_exists :: bool           \<comment> \<open>\<open>os.path.isdir(SERVER_DIR)\<close>\<close>
  ram_txt :: file_content            \<comment> \<open>\<open>SERVER_DIR/ram.txt\<close>\<close>
  spawn_error :: "string list \<Rightarrow> exn option"
                               \<comment> \<open>the exception \<open>Popen\<close> raises on a command, if it does\<close>
  child :: process             \<comment> \<open>the process \<open>Popen\<close> starts otherwise\<close>
  rmtree_fails :: bool         \<comment> \<open>\<open>shutil.rmtree\<close> raises \<open>OSError\<close>\<close>

definition MAX_LOG_LINES :: nat where
  "MAX_LOG_LINES = 300"

definition emit :: "level \<Rightarrow> message \<Rightarrow> runner \<Rightarrow> runner" where
  "emit l m r = r\<lparr>logged := logged r @ [(l, m)]\<rparr>"

section \<open>Calls on a process\<close>

definition stdin_write :: "string \<Rightarrow> process \<Rightarrow> exn + process" where
  \<comment> \<open>\<open>stdin.write(s)\<close> and \<open>stdin.flush()\<close>\<close>
  "stdin_write s p =
     (if stdin_broken p then Inl OSError
      else Inr (p\<lparr>stdin_lines := stdin_lines p @ [s],
                 exit_in := (if s = ''stop'' @ [CHR 0x0A] then stop_delay p else exit_in p)\<rparr>))"

definition wait :: "nat \<Rightarrow> process \<Rightarrow> exn + process" where
  \<comment> \<open>\<open>wait(timeout=t)\<close>\<close>
  "wait t p =
     (if exited p then Inr p
      else case exit_in p of
             None \<Rightarrow> Inl TimeoutExpired
           | Some d \<Rightarrow> if d \<le> t then Inr (p\<lparr>exited := True\<rparr>) else Inl TimeoutExpired)"

definition kill :: "process \<Rightarrow> exn + process" where
  "kill p = (if kill_fails p then Inl OSError else Inr (p\<lparr>exit_in := kill_delay p\<rparr>))"

definition popen :: "world \<Rightarrow> string list \<Rightarrow> exn + process" where
  "popen w cmd =
     (case spawn_error w cmd of
        Some e \<Rightarrow> Inl e
      | None \<Rightarrow> Inr ((child w)\<lparr>argv := cmd\<rparr>))"

section \<open>The Log Buffer and the Output Pump\<close>

definition append_line :: "string \<Rightarrow> string list \<Rightarrow> string list" where
  \<comment> \<open>\<open>server_output.append(trimmed)\<close>, then \<open>pop(0)\<close> when over capacity; both
      run under \<open>output_lock\<close>, so the appends of all pumps form one sequence\<close>
  "append_line trimmed buf =
     (let buf' = buf @ [trimmed] in if length buf' > MAX_LOG_LINES then tl buf' else buf')"

fun stream_logs :: "string list \<Rightarrow> runner \<Rightarrow> runner" where
  \<comment> \<open>the loop of \<open>stream_logs\<close> over the lines read from the child's output\<close>
  "stream_logs [] r = r"
| "stream_logs (line # lines) r =
     stream_logs lines (r\<lparr>server_output := append_line (strip line) (server_output r)\<rparr>)"

definition get_logs :: "runner \<Rightarrow> string" where
  "get_logs r =
     (if server_output r \<noteq> [] then join [CHR 0x0A] (server_output r)
      else ''Server is starting or not running yet...'')"

section \<open>Lifecycle\<close>

definition server_exists :: "world \<Rightarrow> bool" where
  "server_exists w = dir_exists w"

definition is_server_running :: "runner \<Rightarrow> bool" where
  "is_server_running r = (case server_process r of None \<Rightarrow> False | Some p \<Rightarrow> \<not> exited p)"

definition graceful_stop :: "nat \<Rightarrow> process \<Rightarrow> exn + process" where
  \<comment> \<open>the body of the \<open>try\<close> of \<open>stop_server\<close>\<close>
  "graceful_stop timeout p =
     (case stdin_write (''stop'' @ [CHR 0x0A]) p of
        Inl e \<Rightarrow> Inl e
      | Inr p1 \<Rightarrow> wait timeout p1)"

definition force_kill :: "nat \<Rightarrow> process \<Rightarrow> exn + process" where
  \<comment> \<open>the body of the inner \<open>try\<close> of \<open>stop_server\<close>\<close>
  "force_kill timeout p =
     (case kill p of
        Inl e \<Rightarrow> Inl e
      | Inr p1 \<Rightarrow> wait timeout p1)"

definition stop_server :: "nat \<Rightarrow> runner \<Rightarrow> runner" where
  \<comment> \<open>every exception of the body is caught by \<open>except Exception\<close>, so the result is a
      state; the last update is the \<open>finally\<close> block\<close>
  "stop_server timeout r =
     (if \<not> is_server_running r then emit INFO NoProcess r
      else case server_process r of
             None \<Rightarrow> r
           | Some p \<Rightarrow>
               (let r1 =
                  (case graceful_stop timeout p of
                     Inr p1 \<Rightarrow> emit INFO StoppedGracefully (r\<lparr>server_process := Some p1\<rparr>)
                   | Inl e \<Rightarrow>
                       (let r2 = emit WARNING (GracefulStopFailed e) r
                        in case force_kill timeout p of
                             Inr p2 \<Rightarrow> emit INFO Killed (r2\<lparr>server_process := Some p2\<rparr>)
                           | Inl kill_err \<Rightarrow> emit ERROR (KillError kill_err) r2))
                in r1\<lparr>server_process := None\<rparr>))"

definition stop_running :: "runner \<Rightarrow> exn + runner" where
  \<comment> \<open>the first block of \<open>launch_server\<close>: \<open>server_process.wait\<close> on the handle as
      \<open>stop_server\<close> left it; only \<open>TimeoutExpired\<close> is caught\<close>
  "stop_running r =
     (if is_server_running r then
        (let r1 = stop_server 30 (emit INFO AlreadyRunning r)
         in case server_process r1 of
              None \<Rightarrow> Inl AttributeError
            | Some p \<Rightarrow>
                (case wait 30 p of
                   Inr p1 \<Rightarrow> Inr (r1\<lparr>server_process := Some p1\<rparr>)
                 | Inl e \<Rightarrow> if e = TimeoutExpired then Inr (emit WARNING WaitTimeout r1)
                            else Inl e))
      else Inr r)"

definition read_ram :: "world \<Rightarrow> runner \<Rightarrow> exn + (int \<times> runner)" where
  \<comment> \<open>the RAM setting of \<open>launch_server\<close>; \<open>open\<close> on a file that exists may still raise\<close>
  "read_ram w r =
     (case ram_txt w of
        Missing \<Rightarrow> Inr (2, r)
      | Unreadable \<Rightarrow> Inl OSError
      | Text t \<Rightarrow>
          (case py_int (strip t) of
             None \<Rightarrow> Inr (2, emit WARNING NonIntegerRam r)
           | Some ram_val \<Rightarrow>
               if ram_val \<ge> 1 then Inr (ram_val, r)
               else Inr (2, emit WARNING InvalidRam r)))"

definition java_command :: "int \<Rightarrow> string list" where
  "java_command ram =
     [''java'', ''-Xmx'' @ show_int ram @ ''G'', ''-Xms'' @ show_int ram @ ''G'',
      ''-jar'', ''server.jar'', ''nogui'']"

definition launch_server :: "world \<Rightarrow> runner \<Rightarrow> exn + runner" where
  \<comment> \<open>\<open>Inl\<close>: the exception that leaves \<open>launch_server\<close>. The Output Pump the launch
      starts runs later, as \<open>stream_logs\<close>.\<close>
  "launch_server w r =
     (case stop_running r of
        Inl e \<Rightarrow> Inl e
      | Inr r1 \<Rightarrow>
          (case read_ram w r1 of
             Inl e \<Rightarrow> Inl e
           | Inr (ram, r2) \<Rightarrow>
               (let r3 = r2\<lparr>server_output := []\<rparr>
                in case popen w (java_command ram) of
                     Inr p \<Rightarrow> Inr (emit INFO (Launched ram) (r3\<lparr>server_process := Some p\<rparr>))
                   | Inl e \<Rightarrow> Inr ((emit ERROR (LaunchFailed e) r3)\<lparr>server_process := None\<rparr>))))"

definition delete_server :: "world \<Rightarrow> runner \<Rightarrow> bool \<times> world \<times> runner" where
  \<comment> \<open>the result, the file system and the supervisor after \<open>delete_server()\<close>; a removal
      that fails is taken to leave the directory in place\<close>
  "delete_server w r =
     (let r1 = (if is_server_running r then stop_server 30 r else r)
      in if dir_exists w then
           (if rmtree_fails w then (False, w, emit ERROR (DeleteFailed OSError) r1)
            else (True, w\<lparr>dir_exists := False, ram_txt := Missing\<rparr>, emit INFO DeletedDir r1))
         else (True, w, r1))"

section \<open>Status derivation and the tunnel parser\<close>

datatype server_state = offline | booting | online

fun scan_done :: "string list \<Rightarrow> bool" where
  \<comment> \<open>the loop of \<open>get_server_state\<close>: some line has the start-up marker\<close>
  "scan_done [] = False"
| "scan_done (line # lines) =
     (if contains ''done ('' (lower line) then True else scan_done lines)"

definition get_server_state :: "world \<Rightarrow> runner \<Rightarrow> server_state" where
  "get_server_state w r =
     (if \<not> server_exists w then offline
      else if \<not> is_server_running r then offline
      else if scan_done (rev (splitlines (get_logs r))) then online
      else booting)"

type_synonym playit_status = "bool \<times> string option \<times> string option"

fun scan_playit :: "string list \<Rightarrow> playit_status \<Rightarrow> playit_status" where
  \<comment> \<open>the loop of \<open>get_playit_status\<close> over the lines, newest first, from the values of
      \<open>(tunnel_ready, claim_url, joinmc_domain)\<close>; the first case is the \<open>break\<close>\<close>
  "scan_playit [] st = st"
| "scan_playit (line # lines) (tunnel_ready, claim_url, joinmc_domain) =
     (let low = lower line
      in case (if contains ''found minecraft java tunnel'' low then search_joinmc line
               else None) of
           Some d \<Rightarrow> (True, claim_url, Some d)
         | None \<Rightarrow>
             scan_playit lines
               (tunnel_ready,
                (if contains ''claim visit'' low \<and> \<not> tunnel_ready then
                   (case search_claim line of Some u \<Rightarrow> Some u | None \<Rightarrow> claim_url)
                 else claim_url),
                joinmc_domain))"

definition get_playit_status :: "runner \<Rightarrow> playit_status" where
  "get_playit_status r =
     scan_playit (rev (drop (length (server_output r) - MAX_LOG_LINES) (server_output r)))
       (False, None, None)"

section \<open>Example states\<close>

definition idle :: runner where
  \<comment> \<open>the supervisor as the module is loaded: no process, an empty buffer\<close>
  "idle = \<lparr>server_process = None, server_output = [], logged = []\<rparr>"

definition obedient :: process where
  \<comment> \<open>a running child that exits five time units after it reads \<open>stop\<close>\<close>
  "obedient = \<lparr>argv = java_command 2, exited = False, stdin_lines = [], stdin_broken = False,
                stop_delay = Some 5, kill_fails = False, kill_delay = Some 1, exit_in = None\<rparr>"

definition supervising :: "process \<Rightarrow> string list \<Rightarrow> runner" where
  "supervising p buf = \<lparr>server_process = Some p, server_output = buf, logged = []\<rparr>"

definition server_dir :: "file_content \<Rightarrow> world" where
  \<comment> \<open>a server directory with the given RAM record, where a spawn succeeds\<close>
  "server_dir ram = \<lparr>dir_exists = True, ram_txt = ram, spawn_error = (\<lambda>cmd. None),
                     child = obedient,
                     rmtree_fails = False\<rparr>"

definition no_server_dir :: world where
  "no_server_dir = \<lparr>dir_exists = False, ram_txt = Missing,
                     spawn_error = (\<lambda>cmd. Some OSError),
                     child = obedient, rmtree_fails = False\<rparr>"

definition booting_log :: "string list" where
  "booting_log = [''Starting...'', ''Loading world...'']"

definition done_log :: "string list" where
  "done_log = [''Starting...'', ''Loading world...'', ''[Server] Done (12.3s)!'']"

definition two_claims_log :: "string list" where
  \<comment> \<open>two claim lines, the older one first\<close>
  "two_claims_log =
     [''[playit] failed to exchange, to claim visit: https://playit.gg/mc/OLD111'',
      ''[playit] failed to exchange, to claim visit: https://playit.gg/mc/NEW222'']"

definition claim_line :: string where
  "claim_line = ''[playit] failed to exchange, to claim visit: https://playit.gg/mc/AB12''"

section \<open>The Log Buffer is a bounded queue\<close>

lemma append_line_drop:
  "append_line l (drop (length ls - MAX_LOG_LINES) ls)
     = drop (length (ls @ [l]) - MAX_LOG_LINES) (ls @ [l])"
proof (cases "length ls < MAX_LOG_LINES")
  case True
  then show ?thesis by (simp add: append_line_def)
next
  case False
  then have ge: "MAX_LOG_LINES \<le> length ls" by simp
  let ?k = "length ls - MAX_LOG_LINES"
  have k: "?k < length ls" using ge by (simp add: MAX_LOG_LINES_def)
  then have ne: "drop ?k ls \<noteq> []" by simp
  have "append_line l (drop ?k ls) = tl (drop ?k ls @ [l])"
    using ge by (simp add: append_line_def)
  also have "\<dots> = drop (Suc ?k) ls @ [l]"
    using ne by (simp add: drop_Suc tl_drop)
  also have "\<dots> = drop (length (ls @ [l]) - MAX_LOG_LINES) (ls @ [l])"
  proof -
    have "Suc ?k = length (ls @ [l]) - MAX_LOG_LINES" using ge by simp
    moreover have "length (ls @ [l]) - MAX_LOG_LINES \<le> length ls"
      by (simp add: MAX_LOG_LINES_def)
    ultimately show ?thesis by simp
  qed
  finally show ?thesis .
qed

lemma stream_logs_drop:
  "server_output r = drop (length ls - MAX_LOG_LINES) ls \<Longrightarrow>
   server_output (stream_logs lines r)
     = drop (length (ls @ map strip lines) - MAX_LOG_LINES) (ls @ map strip lines)"
proof (induction lines arbitrary: r ls)
  case Nil
  then show ?case by simp
next
  case (Cons line lines)
  let ?r = "r\<lparr>server_output := append_line (strip line) (server_output r)\<rparr>"
  have "server_output ?r
          = drop (length (ls @ [strip line]) - MAX_LOG_LINES) (ls @ [strip line])"
    using Cons.prems append_line_drop [of "strip line" ls] by simp
  from Cons.IH [OF this] show ?case by simp
qed

lemma append_line_evicts:
  "append_line l buf = (if length buf < MAX_LOG_LINES then buf @ [l] else tl buf @ [l])"
proof (cases buf)
  case Nil
  then show ?thesis by (simp add: append_line_def MAX_LOG_LINES_def)
next
  case (Cons b bs)
  then show ?thesis by (auto simp: append_line_def)
qed

text \<open>
  C3. The capacity is 300 lines. Whatever the Output Pump reads after the buffer was
  cleared, the buffer then holds the last 300 of the lines appended (all of them while
  there are fewer), oldest first, so its length is the smaller of 300 and the number of
  appends; as the list of lines read is arbitrary, this holds after each append. One
  append puts the line at the tail and, when the buffer was full, drops the head.
\<close>

theorem log_buffer_keeps_most_recent:
  "MAX_LOG_LINES = 300
   \<and> server_output (stream_logs lines (r\<lparr>server_output := []\<rparr>))
       = drop (length lines - MAX_LOG_LINES) (map strip lines)
   \<and> length (server_output (stream_logs lines (r\<lparr>server_output := []\<rparr>)))
       = min (length lines) MAX_LOG_LINES
   \<and> append_line l buf = (if length buf < MAX_LOG_LINES then buf @ [l] else tl buf @ [l])"
proof -
  have "server_output (stream_logs lines (r\<lparr>server_output := []\<rparr>))
          = drop (length lines - MAX_LOG_LINES) (map strip lines)"
    using stream_logs_drop [of "r\<lparr>server_output := []\<rparr>" "[]" lines] by simp
  then show ?thesis
    using append_line_evicts [of l buf] by (auto simp: MAX_LOG_LINES_def)
qed

section \<open>What the Output Pump appends\<close>

lemma dropWhile_snoc_keep: "\<not> P x \<Longrightarrow> dropWhile P (ys @ [x]) = dropWhile P ys @ [x]"
  by (induction ys) auto

lemma strip_lstrip_rstrip: "strip s = dropWhile isspace (rstrip s)"
proof (cases "dropWhile isspace s")
  case Nil
  then have all: "\<forall>c\<in>set s. isspace c" by (simp add: dropWhile_eq_Nil_conv)
  then have 2: "dropWhile isspace (rev s) = []" by (simp add: dropWhile_eq_Nil_conv)
  show ?thesis unfolding strip_def rstrip_def Nil 2 by simp
next
  case (Cons x m)
  then have nx: "\<not> isspace x" using hd_dropWhile [of isspace s] by auto
  let ?a = "takeWhile isspace s"
  have s: "s = ?a @ x # m" using Cons by (metis takeWhile_dropWhile_id)
  have a: "\<forall>c\<in>set ?a. isspace c" by (auto dest: set_takeWhileD)
  have keep: "dropWhile isspace (rev m @ [x]) = dropWhile isspace (rev m) @ [x]"
    using nx by (rule dropWhile_snoc_keep)
  have eq: "rev s = (rev m @ [x]) @ rev ?a" by (subst s) simp
  have "dropWhile isspace (rev s) = dropWhile isspace (rev m @ [x]) @ rev ?a"
    unfolding eq by (rule dropWhile_append1 [of x]) (simp_all add: nx)
  then have r: "rstrip s = ?a @ x # rev (dropWhile isspace (rev m))"
    using keep by (simp add: rstrip_def)
  have "dropWhile isspace (rstrip s) = x # rev (dropWhile isspace (rev m))"
    unfolding r using a nx by (simp add: dropWhile_append2)
  moreover have "strip s = x # rev (dropWhile isspace (rev m))"
    using Cons keep by (simp add: strip_def)
  ultimately show ?thesis by simp
qed

lemma dropWhile_keep: "xs \<noteq> [] \<Longrightarrow> \<not> P (hd xs) \<Longrightarrow> dropWhile P xs = xs"
  by (cases xs) auto

lemma trim_padded:
  assumes "\<forall>c\<in>set pad1. P c" and "\<forall>c\<in>set pad2. P c"
    and "s \<noteq> []" and "\<not> P (hd s)" and "\<not> P (last s)"
  shows "rev (dropWhile P (rev (dropWhile P (pad1 @ s @ pad2)))) = s"
proof -
  have "dropWhile P (pad1 @ s @ pad2) = dropWhile P (s @ pad2)"
    using assms(1) by (simp add: dropWhile_append2)
  also have "\<dots> = s @ pad2"
    using assms(3,4) by (intro dropWhile_keep) simp_all
  finally have 1: "dropWhile P (pad1 @ s @ pad2) = s @ pad2" .
  have "dropWhile P (rev pad2 @ rev s) = dropWhile P (rev s)"
    by (rule dropWhile_append2) (use assms(2) in auto)
  also have "\<dots> = rev s"
    using assms(3,5) by (intro dropWhile_keep) (simp_all add: hd_rev)
  finally show ?thesis unfolding 1 by simp
qed

lemma strip_padded:
  assumes "\<forall>c\<in>set pad1. isspace c" and "\<forall>c\<in>set pad2. isspace c"
    and "s \<noteq> []" and "\<not> isspace (hd s)" and "\<not> isspace (last s)"
  shows "strip (pad1 @ s @ pad2) = s"
  unfolding strip_def using assms by (rule trim_padded)

lemma strip_blank: "\<forall>c\<in>set pad. isspace c \<Longrightarrow> strip pad = []"
proof -
  assume "\<forall>c\<in>set pad. isspace c"
  then have 1: "dropWhile isspace pad = []" by (simp add: dropWhile_eq_Nil_conv)
  show ?thesis unfolding strip_def 1 by simp
qed

text \<open>
  C8, as the specification states it, fails: the pump calls \<open>line.strip()\<close>, which
  also removes leading white space. Reading the line \<open>"  Done (1s)!\n"\<close>, the pump
  appends \<open>"Done (1s)!"\<close>, while the line with only its trailing white space trimmed
  is \<open>"  Done (1s)!"\<close>.
\<close>

theorem output_pump_drops_leading_space:
  "server_output (stream_logs [''  Done (1s)!'' @ [CHR 0x0A]] idle) = [''Done (1s)!'']
   \<and> rstrip (''  Done (1s)!'' @ [CHR 0x0A]) = ''  Done (1s)!''"
  by code_simp

text \<open>
  C8, amended. For every line read, the line appended is the read line with its trailing
  white space trimmed and its leading white space trimmed as well. White space is what
  \<open>str.isspace\<close> accepts: a line that is a text between two runs of these characters,
  the text neither starting nor ending with one, is appended as that text, and a line of
  nothing but these characters is appended as the empty line.
\<close>

theorem output_pump_strips_both_ends:
  defines "white \<equiv> [CHR 0x09, CHR 0x0A, CHR 0x0B, CHR 0x0C, CHR 0x0D, CHR 0x1C, CHR 0x1D,
                      CHR 0x1E, CHR 0x1F, CHR 0x20, CHR 0x85, CHR 0xA0]"
  shows
   "server_output (stream_logs [line] r)
      = append_line (dropWhile isspace (rstrip line)) (server_output r)
    \<and> (set pad1 \<subseteq> set white \<and> set pad2 \<subseteq> set white \<and> core \<noteq> []
         \<and> hd core \<notin> set white \<and> last core \<notin> set white \<longrightarrow>
       server_output (stream_logs [pad1 @ core @ pad2] r)
         = append_line core (server_output r))
    \<and> (set pad \<subseteq> set white \<longrightarrow>
       server_output (stream_logs [pad] r) = append_line [] (server_output r))"
proof -
  have w: "isspace c = (c \<in> set white)" for c
    unfolding isspace_def white_def by (rule refl)
  have 1: "strip (pad1 @ core @ pad2) = core"
    if "set pad1 \<subseteq> set white" "set pad2 \<subseteq> set white" "core \<noteq> []"
      "hd core \<notin> set white" "last core \<notin> set white"
    using that by (intro strip_padded) (auto simp: w)
  have 2: "strip pad = []" if "set pad \<subseteq> set white"
    using that by (intro strip_blank) (auto simp: w)
  have a: "server_output (stream_logs [line] r)
      = append_line (dropWhile isspace (rstrip line)) (server_output r)"
    by (simp add: strip_lstrip_rstrip)
  have b: "set pad1 \<subseteq> set white \<and> set pad2 \<subseteq> set white \<and> core \<noteq> []
         \<and> hd core \<notin> set white \<and> last core \<notin> set white \<longrightarrow>
       server_output (stream_logs [pad1 @ core @ pad2] r)
         = append_line core (server_output r)"
    using 1 by simp
  have c: "set pad \<subseteq> set white \<longrightarrow>
       server_output (stream_logs [pad] r) = append_line [] (server_output r)"
    using 2 by simp
  show ?thesis by (rule conjI [OF a conjI [OF b c]])
qed

text \<open>
  C8, amended, on a line that starts with a no-break space and a blank and ends with NEL
  and a newline, and on a line of white space only.
\<close>

theorem output_pump_strips_both_ends_witness:
  "server_output (stream_logs [[CHR 0xA0, CHR 0x20] @ ''Done (1s)!'' @ [CHR 0x85, CHR 0x0A]] idle)
     = [''Done (1s)!'']
   \<and> server_output (stream_logs [[CHR 0x20, CHR 0x1F, CHR 0x09, CHR 0x0A]] idle) = [[]]"
proof -
  have a: "append_line s (server_output idle) = [s]" for s
    by (simp add: append_line_def idle_def MAX_LOG_LINES_def)
  from output_pump_strips_both_ends [where r = idle and ?pad1.0 = "[CHR 0xA0, CHR 0x20]"
      and core = "''Done (1s)!''" and ?pad2.0 = "[CHR 0x85, CHR 0x0A]"
      and pad = "[CHR 0x20, CHR 0x1F, CHR 0x09, CHR 0x0A]", THEN conjunct2]
  show ?thesis by (simp add: a)
qed

section \<open>Substrings, lines and the start-up marker\<close>

lemma startswith_prefix: "startswith s p = prefix p s"
  by (induction s p rule: startswith.induct) auto

lemma contains_sublist: "contains sub s = sublist sub s"
  by (induction s) (auto simp: startswith_prefix sublist_Cons_right)

lemma contains_split:
  assumes "x \<notin> set m" and "m \<noteq> []"
  shows "contains m (a @ x # b) = (contains m a \<or> contains m b)"
proof -
  have 1: "\<not> prefix m (x # b)"
    using assms by (cases m) auto
  have 2: "sublist m a" if "m = xs1 @ xs2" "suffix xs1 a" "prefix xs2 (x # b)" for xs1 xs2
  proof (cases xs2)
    case Nil
    with that show ?thesis by (auto simp: suffix_def)
  next
    case (Cons y ys)
    with that assms show ?thesis by auto
  qed
  show ?thesis
    unfolding contains_sublist sublist_append [of m a "x # b"] sublist_Cons_right [of m x b]
    using 1 2 by blast
qed

lemma linebreak_lower: "is_linebreak c \<Longrightarrow> lower_char c = c"
  by (auto simp: is_linebreak_def lower_char_def is_upper_def)

lemma splitlines_from_marker:
  assumes "m \<noteq> []" and "\<forall>c\<in>set m. \<not> is_linebreak c"
  shows "list_ex (\<lambda>l. contains m (lower l)) (splitlines_from cur s) = contains m (lower (cur @ s))"
proof (induction cur s rule: splitlines_from.induct)
  case (1 cur)
  then show ?case using assms by (simp add: lower_def)
next
  case (2 cur c cs)
  show ?case
  proof (cases "is_linebreak c")
    case False
    with 2 show ?thesis by simp
  next
    case True
    note lb = this
    then have c: "c \<notin> set m" "lower_char c = c" using assms linebreak_lower by auto
    have lf: "CHR 0x0A \<notin> set m" using assms by (auto simp: is_linebreak_def)
    show ?thesis
    proof (cases "\<exists>ds. cs = CHR 0x0A # ds \<and> c = CHR 0x0D")
      case True
      then obtain ds where ds: "cs = CHR 0x0A # ds" "c = CHR 0x0D" by blast
      have "contains m (lower (cur @ c # cs)) = (contains m (lower cur) \<or> contains m (CHR 0x0A # lower ds))"
        using contains_split [OF c(1) assms(1), of "lower cur" "lower cs"] c(2) ds
        by (simp add: lower_def lower_char_def is_upper_def)
      also have "contains m (CHR 0x0A # lower ds) = contains m (lower ds)"
        using contains_split [OF lf assms(1), of "[]" "lower ds"] assms(1) by simp
      finally have split: "contains m (lower (cur @ c # cs))
          = (contains m (lower cur) \<or> contains m (lower ds))" .
      have "list_ex (\<lambda>l. contains m (lower l)) (splitlines_from [] ds)
              = contains m (lower ([] @ ds))"
        using 2(2) [OF lb ds(1)] ds(2) by simp
      then show ?thesis
        unfolding split using lb ds by simp
    next
      case False
      have "contains m (lower (cur @ c # cs)) = (contains m (lower cur) \<or> contains m (lower cs))"
        using contains_split [OF c(1) assms(1), of "lower cur" "lower cs"] c(2)
        by (simp add: lower_def)
      then show ?thesis
        using 2(1,3) lb False by (cases cs) auto
    qed
  qed
qed

lemma join_marker:
  assumes "m \<noteq> []" and "CHR 0x0A \<notin> set m" and "buf \<noteq> []"
  shows "contains m (lower (join [CHR 0x0A] buf)) = list_ex (\<lambda>l. contains m (lower l)) buf"
  using assms(3)
proof (induction "[CHR 0x0A]" buf rule: join.induct)
  case 1
  then show ?case by simp
next
  case (2 x)
  then show ?case by simp
next
  case (3 x y ys)
  have "contains m (lower (join [CHR 0x0A] (x # y # ys)))
          = contains m (lower x @ CHR 0x0A # lower (join [CHR 0x0A] (y # ys)))"
    by (simp add: lower_def lower_char_def is_upper_def)
  also have "\<dots> = (contains m (lower x) \<or> contains m (lower (join [CHR 0x0A] (y # ys))))"
    by (rule contains_split [OF assms(2) assms(1)])
  finally show ?case using 3 by simp
qed

lemma scan_done_list_ex: "scan_done ls = list_ex (\<lambda>l. contains ''done ('' (lower l)) ls"
  by (induction ls) auto

lemma placeholder_not_done:
  "scan_done (rev (splitlines ''Server is starting or not running yet...'')) = False"
  by code_simp

lemma done_marker_plain: "\<forall>c\<in>set ''done (''. \<not> is_linebreak c"
  by (auto simp: is_linebreak_def)

lemma scan_done_logs:
  "scan_done (rev (splitlines (get_logs r)))
     = (\<exists>line\<in>set (server_output r). contains ''done ('' (lower line))"
proof (cases "server_output r = []")
  case True
  then show ?thesis using placeholder_not_done by (simp add: get_logs_def)
next
  case False
  have "scan_done (rev (splitlines (get_logs r)))
          = list_ex (\<lambda>l. contains ''done ('' (lower l)) (splitlines_from [] (get_logs r))"
    by (simp add: scan_done_list_ex splitlines_def list_ex_iff)
  also have "\<dots> = contains ''done ('' (lower ([] @ get_logs r))"
    by (rule splitlines_from_marker [OF _ done_marker_plain]) simp
  also have "\<dots> = list_ex (\<lambda>l. contains ''done ('' (lower l)) (server_output r)"
    using False join_marker [of "''done (''" "server_output r"] by (simp add: get_logs_def)
  finally show ?thesis by (simp add: list_ex_iff)
qed

section \<open>Status derivation\<close>

text \<open>
  C4. Whatever the buffer holds, the readiness state is \<open>offline\<close> when the working
  directory does not exist or the process is not alive.
\<close>

theorem offline_overrides:
  "\<not> server_exists w \<or> \<not> is_server_running r \<Longrightarrow> get_server_state w r = offline"
  by (auto simp: get_server_state_def)

text \<open>
  C4 at two states whose buffer still holds the line \<open>[Server] Done (12.3s)!\<close>: a live
  process whose directory is gone, and a directory whose process has exited.
\<close>

theorem offline_overrides_witness:
  "\<not> server_exists no_server_dir
   \<and> scan_done done_log
   \<and> get_server_state no_server_dir (supervising obedient done_log) = offline
   \<and> \<not> is_server_running (supervising (obedient\<lparr>exited := True\<rparr>) done_log)
   \<and> get_server_state (server_dir Missing) (supervising (obedient\<lparr>exited := True\<rparr>) done_log)
       = offline"
proof -
  have a: "\<not> server_exists no_server_dir" by code_simp
  have b: "\<not> is_server_running (supervising (obedient\<lparr>exited := True\<rparr>) done_log)"
    by code_simp
  have c: "scan_done done_log" by code_simp
  from a have a': "\<not> server_exists no_server_dir
      \<or> \<not> is_server_running (supervising obedient done_log)" by simp
  from b have b': "\<not> server_exists (server_dir Missing)
      \<or> \<not> is_server_running (supervising (obedient\<lparr>exited := True\<rparr>) done_log)" by simp
  from offline_overrides [OF a'] offline_overrides [OF b'] a b c show ?thesis by simp
qed

text \<open>
  C5, as the specification states it, fails: with a live process and the line
  \<open>[Server] Done (12.3s)!\<close> in the buffer, the state is \<open>offline\<close>, not
  \<open>online\<close>, when the working directory does not exist.
\<close>

theorem online_needs_directory:
  "is_server_running (supervising obedient done_log)
   \<and> contains ''done ('' (lower (last (server_output (supervising obedient done_log))))
   \<and> get_server_state no_server_dir (supervising obedient done_log) = offline
   \<and> get_server_state no_server_dir (supervising obedient done_log) \<noteq> online"
  by code_simp

text \<open>
  C5, amended. The readiness state is \<open>online\<close> if and only if the working directory
  exists, the process is alive and some buffered line contains \<open>done (\<close>, whatever the
  case of its letters; it is \<open>booting\<close> if and only if the directory exists, the process
  is alive and no buffered line does.
\<close>

theorem readiness_state:
  "(get_server_state w r = online) =
     (server_exists w \<and> is_server_running r
      \<and> (\<exists>line\<in>set (server_output r). contains ''done ('' (lower line)))
   \<and> (get_server_state w r = booting) =
     (server_exists w \<and> is_server_running r
      \<and> \<not> (\<exists>line\<in>set (server_output r). contains ''done ('' (lower line)))"
  unfolding get_server_state_def scan_done_logs by auto

text \<open>
  C5, amended, on the scenario of the specification: the directory exists and the process
  is alive; the state is \<open>booting\<close> with two lines of start-up output and \<open>online\<close>
  once the line \<open>[Server] Done (12.3s)!\<close> has arrived.
\<close>

theorem readiness_state_witness:
  "get_server_state (server_dir Missing) (supervising obedient booting_log) = booting
   \<and> get_server_state (server_dir Missing) (supervising obedient done_log) = online"
proof -
  have w: "server_exists (server_dir Missing)" by code_simp
  have p: "is_server_running (supervising obedient buf)" for buf
    by (simp add: is_server_running_def supervising_def obedient_def)
  have b: "\<not> (\<exists>line\<in>set (server_output (supervising obedient booting_log)).
             contains ''done ('' (lower line))" by code_simp
  have d: "\<exists>line\<in>set (server_output (supervising obedient done_log)).
             contains ''done ('' (lower line)" by code_simp
  from readiness_state [of "server_dir Missing" "supervising obedient booting_log"]
    readiness_state [of "server_dir Missing" "supervising obedient done_log"] w p b d
  show ?thesis by blast
qed

section \<open>The regular expressions on a line that holds a domain\<close>

lemma upper_lower_char: "is_upper c \<Longrightarrow> is_lower (lower_char c)"
proof -
  assume u: "is_upper c"
  then have "of_char (lower_char c) = (of_char c + 32 :: nat)"
    by (simp add: lower_char_def is_upper_def Let_def)
  with u show ?thesis by (simp add: is_lower_def is_upper_def Let_def)
qed

lemma lower_char_eq_plain: "\<not> is_lower x \<Longrightarrow> lower_char c = x \<Longrightarrow> c = x"
  using upper_lower_char [of c] by (cases "is_upper c") (auto simp: lower_char_def)

lemma not_lower_dot: "\<not> is_lower CHR ''.''" and not_lower_slash: "\<not> is_lower CHR ''/''"
  by (simp_all add: is_lower_def)

lemma not_label_dot: "\<not> is_label_char CHR ''.''" and not_label_slash: "\<not> is_label_char CHR ''/''"
  by (simp_all add: is_label_char_def is_alnum_def is_lower_def is_upper_def is_digit_def)

lemma ci_startswith_lower: "ci_startswith s pat = startswith (lower s) pat"
  by (induction s pat rule: ci_startswith.induct) (simp_all add: lower_def)

lemma ci_startswith_nth:
  assumes "ci_startswith s p"
  shows "length p \<le> length s" and "\<And>i. i < length p \<Longrightarrow> lower_char (s ! i) = p ! i"
proof -
  from assms obtain z where z: "lower s = p @ z"
    by (auto simp: ci_startswith_lower startswith_prefix prefix_def)
  then have "length (lower s) = length p + length z" by simp
  then show len: "length p \<le> length s" by (simp add: lower_def)
  fix i assume i: "i < length p"
  then have "lower s ! i = p ! i" using z by (simp add: nth_append)
  then show "lower_char (s ! i) = p ! i" using i len by (simp add: lower_def)
qed

lemma ci_startswith_append: "ci_startswith (p @ s) (lower p)"
  by (simp add: ci_startswith_lower startswith_prefix lower_def)

lemma match_domain_here:
  assumes "lab \<noteq> []" and "\<forall>c\<in>set lab. is_label_char c"
  shows "match_domain (lab @ ''.joinmc.link'' @ post) = Some (lab @ ''.joinmc.link'')"
proof -
  have tw: "takeWhile is_label_char (lab @ ''.joinmc.link'' @ post) = lab"
    using assms(2) not_label_dot by (simp add: takeWhile_append2)
  have dw: "dropWhile is_label_char (lab @ ''.joinmc.link'' @ post) = ''.joinmc.link'' @ post"
    using assms(2) not_label_dot by (simp add: dropWhile_append2)
  have "ci_startswith (''.joinmc.link'' @ post) ''.joinmc.link''"
    using ci_startswith_append [of "''.joinmc.link''" post]
    by (simp add: lower_def lower_char_def is_upper_def)
  then show ?thesis
    unfolding match_domain_def tw dw using assms(1) by (simp add: Let_def)
qed

lemma match_domain_before:
  assumes "v \<noteq> []" and "\<not> is_label_char (last v)" and "CHR ''.'' \<notin> set v"
  shows "match_domain (v @ t) = None"
proof -
  have lv: "last v \<in> set v" using assms(1) by simp
  have dw: "dropWhile is_label_char (v @ t) = dropWhile is_label_char v @ t"
    using lv assms(2) by (rule dropWhile_append1)
  have ne: "dropWhile is_label_char v \<noteq> []"
    using lv assms(2) by (auto simp: dropWhile_eq_Nil_conv)
  then obtain y ys where y: "dropWhile is_label_char v = y # ys" by (cases "dropWhile is_label_char v") auto
  then have "y \<in> set v" by (metis list.set_intros(1) set_dropWhileD)
  then have yd: "y \<noteq> CHR ''.''" using assms(3) by auto
  have "\<not> ci_startswith (y # ys @ t) ''.joinmc.link''"
  proof
    assume "ci_startswith (y # ys @ t) ''.joinmc.link''"
    from ci_startswith_nth(2) [OF this, of 0] have "lower_char y = CHR ''.''" by simp
    with yd show False using lower_char_eq_plain [OF not_lower_dot] by blast
  qed
  then show ?thesis unfolding match_domain_def dw y by (simp add: Let_def)
qed

lemma scheme_inside:
  assumes p: "p \<noteq> []" "CHR ''.'' \<notin> set p" "last p = CHR ''/''"
    and lab: "\<forall>c\<in>set lab. is_label_char c"
    and m: "ci_startswith (v @ lab @ CHR ''.'' # R) p"
  shows "length p \<le> length v"
proof (rule ccontr)
  assume "\<not> length p \<le> length v"
  then have lt: "length v < length p" by simp
  let ?s = "v @ lab @ CHR ''.'' # R"
  let ?i = "length v + length lab"
  have dot: "?s ! ?i = CHR ''.''" by (simp add: nth_append)
  show False
  proof (cases "?i < length p")
    case True
    from ci_startswith_nth(2) [OF m True] dot have "lower_char CHR ''.'' = p ! ?i" by simp
    then have "p ! ?i = CHR ''.''" by (simp add: lower_char_def is_upper_def)
    with True p(2) show False by (metis nth_mem)
  next
    case False
    let ?j = "length p - 1"
    have j: "?j < length p" using p(1) by simp
    have jl: "length v \<le> ?j" "?j - length v < length lab" using lt False by auto
    then have "?s ! ?j = lab ! (?j - length v)" by (simp add: nth_append)
    then have lc: "is_label_char (?s ! ?j)" using lab jl by simp
    have "p ! ?j = CHR ''/''" using p(1,3) by (simp add: last_conv_nth)
    with ci_startswith_nth(2) [OF m j] have "lower_char (?s ! ?j) = CHR ''/''" by simp
    then have "?s ! ?j = CHR ''/''" using lower_char_eq_plain [OF not_lower_slash] by blast
    with lc not_label_slash show False by simp
  qed
qed

lemma no_domain_before_drop:
  "no_domain_before v t \<Longrightarrow> k < length v \<Longrightarrow> match_domain (drop k v @ t) = None"
proof (induction v arbitrary: k)
  case Nil
  then show ?case by simp
next
  case (Cons c cs)
  show ?case
  proof (cases k)
    case 0
    with Cons.prems show ?thesis by (simp split: if_splits)
  next
    case (Suc j)
    with Cons show ?thesis by (simp split: if_splits)
  qed
qed

lemma no_domain_before_append:
  "no_domain_before (u @ v) t = (no_domain_before u (v @ t) \<and> no_domain_before v t)"
  by (induction u) auto

lemma no_domain_before_plain:
  assumes "CHR ''.'' \<notin> set v" and "v = [] \<or> \<not> is_label_char (last v)"
  shows "no_domain_before v t"
  using assms
proof (induction v)
  case Nil
  show ?case by simp
next
  case (Cons c cs)
  have "match_domain ((c # cs) @ t) = None"
    using Cons.prems by (intro match_domain_before) auto
  moreover have "no_domain_before cs t"
    using Cons by (cases "cs = []") auto
  ultimately show ?case by simp
qed

lemma match_domain_suffix:
  assumes lab: "lab \<noteq> []" "\<forall>c\<in>set lab. is_label_char c"
    and nb: "no_domain_before v (lab @ ''.joinmc.link'' @ post)"
    and k: "k \<le> length v"
    and m: "match_domain (drop k (v @ lab @ ''.joinmc.link'' @ post)) = Some d"
  shows "d = lab @ ''.joinmc.link''"
proof -
  let ?t = "lab @ ''.joinmc.link'' @ post"
  have dr: "drop k (v @ ?t) = drop k v @ ?t" using k by simp
  show ?thesis
  proof (cases "k < length v")
    case False
    with k have "drop k v = []" by simp
    with m dr match_domain_here [OF lab, of post] show ?thesis by simp
  next
    case True
    from no_domain_before_drop [OF nb True] m dr show ?thesis by simp
  qed
qed

lemma match_joinmc_before:
  assumes lab: "lab \<noteq> []" "\<forall>c\<in>set lab. is_label_char c"
    and nb: "no_domain_before v (lab @ ''.joinmc.link'' @ post)"
    and m: "match_joinmc (v @ lab @ ''.joinmc.link'' @ post) = Some d"
  shows "d = lab @ ''.joinmc.link''"
proof -
  let ?s = "v @ lab @ ''.joinmc.link'' @ post"
  have s: "?s = v @ lab @ CHR ''.'' # (''joinmc.link'' @ post)" by simp
  have in8: "length ''https://'' \<le> length v" if "ci_startswith ?s ''https://''"
    using that unfolding s by (intro scheme_inside [OF _ _ _ lab(2)]) auto
  have in7: "length ''http://'' \<le> length v" if "ci_startswith ?s ''http://''"
    using that unfolding s by (intro scheme_inside [OF _ _ _ lab(2)]) auto
  from m consider
      (a) "ci_startswith ?s ''https://''" "match_domain (drop (length ''https://'') ?s) = Some d"
    | (b) "ci_startswith ?s ''http://''" "match_domain (drop (length ''http://'') ?s) = Some d"
    | (c) "match_domain (drop 0 ?s) = Some d"
    unfolding match_joinmc_def by (auto split: if_splits option.splits)
  then show ?thesis
  proof cases
    case a
    from match_domain_suffix [OF lab nb in8 [OF a(1)] a(2)] show ?thesis .
  next
    case b
    from match_domain_suffix [OF lab nb in7 [OF b(1)] b(2)] show ?thesis .
  next
    case c
    from match_domain_suffix [OF lab nb _ c] show ?thesis by simp
  qed
qed

lemma search_joinmc_step:
  "s \<noteq> [] \<Longrightarrow>
   search_joinmc s = (case match_joinmc s of Some d \<Rightarrow> Some d | None \<Rightarrow> search_joinmc (tl s))"
  by (cases s) (simp_all split: option.splits)

lemma match_joinmc_at_domain:
  assumes lab: "lab \<noteq> []" "\<forall>c\<in>set lab. is_label_char c"
    and sch: "sch = [] \<or> sch = ''http://'' \<or> sch = ''https://''"
  shows "match_joinmc (sch @ lab @ ''.joinmc.link'' @ post) = Some (lab @ ''.joinmc.link'')"
proof -
  let ?t = "lab @ ''.joinmc.link'' @ post"
  note here = match_domain_here [OF lab, of post]
  have "CHR ''.'' \<notin> set sch" "sch = [] \<or> \<not> is_label_char (last sch)"
    using sch not_label_slash by auto
  then have nb: "no_domain_before sch ?t" by (rule no_domain_before_plain)
  have "match_joinmc (sch @ ?t) \<noteq> None"
  proof -
    from sch consider "sch = []" | "sch = ''http://''" | "sch = ''https://''" by blast
    then show ?thesis
    proof cases
      case 1
      then show ?thesis using here by (auto simp: match_joinmc_def split: option.splits)
    next
      case 2
      have "\<not> ci_startswith (''http://'' @ ?t) ''https://''"
      proof
        assume "ci_startswith (''http://'' @ ?t) ''https://''"
        from ci_startswith_nth(2) [OF this, of 4] show False
          by (simp add: lower_char_def is_upper_def)
      qed
      moreover have "ci_startswith (''http://'' @ ?t) ''http://''"
        using ci_startswith_append [of "''http://''" ?t]
        by (simp add: lower_def lower_char_def is_upper_def)
      ultimately show ?thesis
        using here 2 by (simp add: match_joinmc_def lower_char_def is_upper_def)
    next
      case 3
      have "ci_startswith (''https://'' @ ?t) ''https://''"
        using ci_startswith_append [of "''https://''" ?t]
        by (simp add: lower_def lower_char_def is_upper_def)
      then show ?thesis
        using here 3 by (simp add: match_joinmc_def lower_char_def is_upper_def)
    qed
  qed
  then obtain d where d: "match_joinmc (sch @ ?t) = Some d" by auto
  from match_joinmc_before [OF lab nb d] d show ?thesis by simp
qed

lemma search_joinmc_first_domain:
  assumes lab: "lab \<noteq> []" "\<forall>c\<in>set lab. is_label_char c"
    and sch: "sch = [] \<or> sch = ''http://'' \<or> sch = ''https://''"
    and pre: "no_domain_before pre (sch @ lab @ ''.joinmc.link'' @ post)"
  shows "search_joinmc (pre @ sch @ lab @ ''.joinmc.link'' @ post) = Some (lab @ ''.joinmc.link'')"
  using pre
proof (induction pre)
  case Nil
  have "sch @ lab @ ''.joinmc.link'' @ post \<noteq> []" by simp
  from search_joinmc_step [OF this] match_joinmc_at_domain [OF lab sch, of post]
  show ?case by simp
next
  case (Cons x pre)
  let ?t = "lab @ ''.joinmc.link'' @ post"
  have ih: "search_joinmc (pre @ sch @ ?t) = Some (lab @ ''.joinmc.link'')"
    using Cons by (auto split: if_splits)
  have "CHR ''.'' \<notin> set sch" "sch = [] \<or> \<not> is_label_char (last sch)"
    using sch not_label_slash by auto
  then have "no_domain_before sch ?t" by (rule no_domain_before_plain)
  with Cons.prems have nb: "no_domain_before ((x # pre) @ sch) ?t"
    unfolding no_domain_before_append by simp
  show ?case
  proof (cases "match_joinmc ((x # pre) @ sch @ ?t)")
    case None
    then show ?thesis using ih by simp
  next
    case (Some d)
    have "match_joinmc (((x # pre) @ sch) @ ?t) = Some d" using Some by simp
    from match_joinmc_before [OF lab nb this] Some show ?thesis by simp
  qed
qed

lemma scan_playit_skip:
  assumes "\<forall>m\<in>set ms.
      \<not> (contains ''found minecraft java tunnel'' (lower m) \<and> search_joinmc m \<noteq> None)
    \<and> \<not> (contains ''claim visit'' (lower m) \<and> search_claim m \<noteq> None)"
  shows "scan_playit (ms @ rest) st = scan_playit rest st"
  using assms
proof (induction ms arbitrary: st)
  case Nil
  then show ?case by simp
next
  case (Cons m ms)
  obtain a b c where st: "st = (a, b, c)" by (cases st)
  from Cons.prems have m:
    "\<not> (contains ''found minecraft java tunnel'' (lower m) \<and> search_joinmc m \<noteq> None)"
    "\<not> (contains ''claim visit'' (lower m) \<and> search_claim m \<noteq> None)" by auto
  have "scan_playit ((m # ms) @ rest) st = scan_playit (ms @ rest) st"
    unfolding st using m by (auto simp: Let_def split: option.splits)
  also have "\<dots> = scan_playit rest st" using Cons by simp
  finally show ?case .
qed

lemma scan_playit_ready:
  assumes "contains ''found minecraft java tunnel'' (lower line)" and "search_joinmc line = Some d"
  shows "scan_playit (line # rest) (a, b, c) = (True, b, Some d)"
  using assms by (simp add: Let_def)

lemma playit_window:
  assumes "length newer < MAX_LOG_LINES"
  shows "\<exists>older'. rev (drop (length (older @ line # newer) - MAX_LOG_LINES) (older @ line # newer))
           = rev newer @ line # older'"
proof -
  let ?n = "length (older @ line # newer) - MAX_LOG_LINES"
  have "?n \<le> length older" using assms by simp
  then have "drop ?n (older @ line # newer) = drop ?n older @ line # newer" by simp
  then show ?thesis by simp
qed

section \<open>The tunnel parser\<close>

text \<open>
  C2. The buffer holds two claim lines and no ready line; the older line has the link
  \<open>https://playit.gg/mc/OLD111\<close>, the newer one \<open>https://playit.gg/mc/NEW222\<close>.
  The scan runs from the newest line to the oldest and every claim line overwrites the link,
  so the parser returns the link of the oldest claim line, not of the most recent one.
\<close>

theorem claim_url_of_oldest_line:
  "get_playit_status (supervising obedient two_claims_log)
     = (False, Some ''https://playit.gg/mc/OLD111'', None)"
  by code_simp

text \<open>
  C7. Let the buffer be \<open>older @ line # newer\<close>, where no line of \<open>newer\<close> matches
  the ready marker or the claim marker (the phrase together with its pattern), and \<open>line\<close>
  holds the phrase \<open>found minecraft java tunnel\<close> and, as its first domain, a label
  followed by \<open>.joinmc.link\<close>, with or without a scheme in front. Then the parser
  returns ready, no claim link and the domain without the scheme, and the lines of \<open>older\<close>
  play no part: the result is that of the buffer \<open>line # newer\<close>.
\<close>

theorem ready_line_wins:
  assumes buf: "server_output r = older @ line # newer"
    and window: "length newer < MAX_LOG_LINES"
    and newer: "\<forall>m\<in>set newer.
        \<not> (contains ''found minecraft java tunnel'' (lower m) \<and> search_joinmc m \<noteq> None)
      \<and> \<not> (contains ''claim visit'' (lower m) \<and> search_claim m \<noteq> None)"
    and marker: "contains ''found minecraft java tunnel'' (lower line)"
    and line: "line = pre @ sch @ lab @ ''.joinmc.link'' @ post"
    and sch: "sch = [] \<or> sch = ''http://'' \<or> sch = ''https://''"
    and lab: "lab \<noteq> []" "\<forall>c\<in>set lab. is_label_char c"
    and first: "no_domain_before pre (sch @ lab @ ''.joinmc.link'' @ post)"
  shows "get_playit_status r = (True, None, Some (lab @ ''.joinmc.link''))
       \<and> get_playit_status r = get_playit_status (r\<lparr>server_output := line # newer\<rparr>)"
proof -
  have d: "search_joinmc line = Some (lab @ ''.joinmc.link'')"
    unfolding line by (rule search_joinmc_first_domain [OF lab sch first])
  have scan: "scan_playit (rev newer @ line # rest) (False, None, None)
                = (True, None, Some (lab @ ''.joinmc.link''))" for rest
  proof -
    have "\<forall>m\<in>set (rev newer).
        \<not> (contains ''found minecraft java tunnel'' (lower m) \<and> search_joinmc m \<noteq> None)
      \<and> \<not> (contains ''claim visit'' (lower m) \<and> search_claim m \<noteq> None)"
      using newer by simp
    from scan_playit_skip [OF this] scan_playit_ready [OF marker d] show ?thesis by simp
  qed
  from playit_window [OF window, of older line] obtain o1 where
    "rev (drop (length (older @ line # newer) - MAX_LOG_LINES) (older @ line # newer))
       = rev newer @ line # o1" by blast
  then have 1: "get_playit_status r = (True, None, Some (lab @ ''.joinmc.link''))"
    unfolding get_playit_status_def buf using scan by simp
  from playit_window [OF window, of "[]" line] obtain o2 where
    "rev (drop (length ([] @ line # newer) - MAX_LOG_LINES) ([] @ line # newer))
       = rev newer @ line # o2" by blast
  then have "get_playit_status (r\<lparr>server_output := line # newer\<rparr>)
               = (True, None, Some (lab @ ''.joinmc.link''))"
    unfolding get_playit_status_def using scan by simp
  with 1 show ?thesis by simp
qed

text \<open>
  C7 at two buffers with an older claim line: the ready line holds the domain with the
  scheme \<open>https://\<close>, after a time stamp and a tag with dots, and a later line follows
  it; the ready line holds the bare domain.
\<close>

theorem ready_line_wins_witness:
  "get_playit_status (supervising obedient
      [claim_line,
       ''[12:00:01.123] [playit.gg] Found minecraft java tunnel: https://foo.joinmc.link'',
       ''[Server] Done (12.3s)!''])
     = (True, None, Some ''foo.joinmc.link'')
   \<and> get_playit_status (supervising obedient
      [claim_line, ''[playit] found minecraft java tunnel foo.joinmc.link (ready)''])
     = (True, None, Some ''foo.joinmc.link'')"
proof -
  let ?p1 = "''[12:00:01.123] [playit.gg] Found minecraft java tunnel: ''"
  let ?l1 = "''[12:00:01.123] [playit.gg] Found minecraft java tunnel: https://foo.joinmc.link''"
  let ?p2 = "''[playit] found minecraft java tunnel ''"
  let ?l2 = "''[playit] found minecraft java tunnel foo.joinmc.link (ready)''"
  let ?n = "''[Server] Done (12.3s)!''"
  have lab: "''foo'' \<noteq> []" "\<forall>c\<in>set ''foo''. is_label_char c"
    by (simp_all add: is_label_char_def is_alnum_def is_lower_def)
  have buf1: "server_output (supervising obedient [claim_line, ?l1, ?n])
                = [claim_line] @ ?l1 # [?n]"
    by (simp add: supervising_def)
  have win1: "length [?n] < MAX_LOG_LINES" by (simp add: MAX_LOG_LINES_def)
  have new1: "\<forall>m\<in>set [?n].
        \<not> (contains ''found minecraft java tunnel'' (lower m) \<and> search_joinmc m \<noteq> None)
      \<and> \<not> (contains ''claim visit'' (lower m) \<and> search_claim m \<noteq> None)"
    by code_simp
  have mark1: "contains ''found minecraft java tunnel'' (lower ?l1)" by code_simp
  have line1: "?l1 = ?p1 @ ''https://'' @ ''foo'' @ ''.joinmc.link'' @ []" by simp
  have sch1: "''https://'' = [] \<or> ''https://'' = ''http://'' \<or> ''https://'' = ''https://''"
    by simp
  have first1: "no_domain_before ?p1 (''https://'' @ ''foo'' @ ''.joinmc.link'' @ [])"
    by code_simp
  have buf2: "server_output (supervising obedient [claim_line, ?l2]) = [claim_line] @ ?l2 # []"
    by (simp add: supervising_def)
  have win2: "length ([] :: string list) < MAX_LOG_LINES" by (simp add: MAX_LOG_LINES_def)
  have new2: "\<forall>m\<in>set ([] :: string list).
        \<not> (contains ''found minecraft java tunnel'' (lower m) \<and> search_joinmc m \<noteq> None)
      \<and> \<not> (contains ''claim visit'' (lower m) \<and> search_claim m \<noteq> None)"
    by simp
  have mark2: "contains ''found minecraft java tunnel'' (lower ?l2)" by code_simp
  have line2: "?l2 = ?p2 @ [] @ ''foo'' @ ''.joinmc.link'' @ '' (ready)''" by simp
  have sch2: "([] :: string) = [] \<or> [] = ''http://'' \<or> [] = ''https://''" by simp
  have first2: "no_domain_before ?p2 ([] @ ''foo'' @ ''.joinmc.link'' @ '' (ready)'')"
    by code_simp
  from ready_line_wins [OF buf1 win1 new1 mark1 line1 sch1 lab first1]
    ready_line_wins [OF buf2 win2 new2 mark2 line2 sch2 lab first2]
  show ?thesis by simp
qed

section \<open>Stopping, launching and deleting\<close>

lemma stop_server_handle:
  "is_server_running r \<Longrightarrow> server_process (stop_server timeout r) = None"
  by (auto simp: stop_server_def is_server_running_def Let_def emit_def
      split: option.splits sum.splits)

text \<open>
  C6. When a process is alive at entry, the Process Handle is empty when \<open>stop_server\<close>
  returns, and the supervisor reports no running server: the outcome of the write, of the
  two waits and of the kill is arbitrary, so this covers the graceful exit, the escalation
  to a kill, and a kill or a wait after it that raises.
\<close>

theorem stop_clears_handle:
  "is_server_running r \<Longrightarrow>
     server_process (stop_server timeout r) = None
     \<and> \<not> is_server_running (stop_server timeout r)"
  using stop_server_handle [of r timeout] by (simp add: is_server_running_def)

text \<open>
  C6 on four children: one that exits on \<open>stop\<close>; one that takes too long and is
  killed; one whose input is broken and whose kill raises; one that survives the kill, so
  that the wait after it times out. What was logged tells the path taken.
\<close>

theorem stop_clears_handle_witness:
  "is_server_running (supervising obedient [])
   \<and> stop_server 30 (supervising obedient [])
       = \<lparr>server_process = None, server_output = [], logged = [(INFO, StoppedGracefully)]\<rparr>
   \<and> is_server_running (supervising (obedient\<lparr>stop_delay := Some 31\<rparr>) [])
   \<and> stop_server 30 (supervising (obedient\<lparr>stop_delay := Some 31\<rparr>) [])
       = \<lparr>server_process = None, server_output = [],
          logged = [(WARNING, GracefulStopFailed TimeoutExpired), (INFO, Killed)]\<rparr>
   \<and> is_server_running (supervising (obedient\<lparr>stdin_broken := True, kill_fails := True\<rparr>) [])
   \<and> stop_server 30 (supervising (obedient\<lparr>stdin_broken := True, kill_fails := True\<rparr>) [])
       = \<lparr>server_process = None, server_output = [],
          logged = [(WARNING, GracefulStopFailed OSError), (ERROR, KillError OSError)]\<rparr>
   \<and> is_server_running (supervising (obedient\<lparr>stop_delay := None, kill_delay := None\<rparr>) [])
   \<and> stop_server 30 (supervising (obedient\<lparr>stop_delay := None, kill_delay := None\<rparr>) [])
       = \<lparr>server_process = None, server_output = [],
          logged = [(WARNING, GracefulStopFailed TimeoutExpired), (ERROR, KillError TimeoutExpired)]\<rparr>"
proof -
  have a: "is_server_running (supervising obedient [])" by code_simp
  have b: "is_server_running (supervising (obedient\<lparr>stop_delay := Some 31\<rparr>) [])" by code_simp
  have c: "is_server_running (supervising (obedient\<lparr>stdin_broken := True, kill_fails := True\<rparr>) [])"
    by code_simp
  have d: "is_server_running (supervising (obedient\<lparr>stop_delay := None, kill_delay := None\<rparr>) [])"
    by code_simp
  have la: "logged (stop_server 30 (supervising obedient [])) = [(INFO, StoppedGracefully)]"
    "server_output (stop_server 30 (supervising obedient [])) = []" by code_simp+
  have lb: "logged (stop_server 30 (supervising (obedient\<lparr>stop_delay := Some 31\<rparr>) []))
     = [(WARNING, GracefulStopFailed TimeoutExpired), (INFO, Killed)]"
    "server_output (stop_server 30 (supervising (obedient\<lparr>stop_delay := Some 31\<rparr>) [])) = []"
    by code_simp+
  have lc: "logged (stop_server 30 (supervising (obedient\<lparr>stdin_broken := True, kill_fails := True\<rparr>) []))
     = [(WARNING, GracefulStopFailed OSError), (ERROR, KillError OSError)]"
    "server_output (stop_server 30 (supervising (obedient\<lparr>stdin_broken := True, kill_fails := True\<rparr>) [])) = []"
    by code_simp+
  have ld: "logged (stop_server 30 (supervising (obedient\<lparr>stop_delay := None, kill_delay := None\<rparr>) []))
     = [(WARNING, GracefulStopFailed TimeoutExpired), (ERROR, KillError TimeoutExpired)]"
    "server_output (stop_server 30 (supervising (obedient\<lparr>stop_delay := None, kill_delay := None\<rparr>) [])) = []"
    by code_simp+
  show ?thesis
    using a b c d la lb lc ld
      stop_clears_handle [OF a, of 30] stop_clears_handle [OF b, of 30]
      stop_clears_handle [OF c, of 30] stop_clears_handle [OF d, of 30]
    by (simp add: runner.equality)
qed

text \<open>
  With a live process at entry, \<open>stop_server\<close> has emptied the handle when
  \<open>launch_server\<close> calls \<open>wait\<close> on it.
\<close>

lemma launch_while_running: "is_server_running r \<Longrightarrow> launch_server w r = Inl AttributeError"
proof -
  assume run: "is_server_running r"
  then have "is_server_running (emit INFO AlreadyRunning r)"
    by (simp add: is_server_running_def emit_def)
  from stop_server_handle [OF this] run show ?thesis
    by (simp add: launch_server_def stop_running_def Let_def)
qed

text \<open>
  C1. A launch over a live process, here a child that would exit on \<open>stop\<close>, in a server
  directory whose RAM record is \<open>8\<close>: the launch does not wait, logs no timeout and
  starts nothing, it raises \<open>AttributeError\<close> to its caller.
\<close>

theorem launch_over_live_process_raises:
  "is_server_running (supervising obedient [])
   \<and> launch_server (server_dir (Text ''8'')) (supervising obedient []) = Inl AttributeError"
  by code_simp

text \<open>
  C10. With no running process and no working directory, \<open>delete_server\<close> returns true
  and leaves the file system and the supervisor as they were. In every state its result is
  false exactly when the directory exists and its removal raises.
\<close>

theorem delete_without_server:
  "(\<not> is_server_running r \<and> \<not> dir_exists w \<longrightarrow> delete_server w r = (True, w, r))
   \<and> fst (delete_server w r) = (\<not> (dir_exists w \<and> rmtree_fails w))"
  by (simp add: delete_server_def Let_def)

text \<open>
  C10 at the idle supervisor without a server directory, and at a server directory whose
  removal raises.
\<close>

theorem delete_without_server_witness:
  "\<not> is_server_running idle \<and> \<not> dir_exists no_server_dir
   \<and> delete_server no_server_dir idle = (True, no_server_dir, idle)
   \<and> fst (delete_server ((server_dir Missing)\<lparr>rmtree_fails := True\<rparr>) idle) = False"
proof -
  have h: "\<not> is_server_running idle \<and> \<not> dir_exists no_server_dir" by code_simp
  have f: "dir_exists ((server_dir Missing)\<lparr>rmtree_fails := True\<rparr>)
      \<and> rmtree_fails ((server_dir Missing)\<lparr>rmtree_fails := True\<rparr>)" by code_simp
  from h f delete_without_server [of idle no_server_dir]
    delete_without_server [of idle "(server_dir Missing)\<lparr>rmtree_fails := True\<rparr>"]
  show ?thesis by simp
qed

section \<open>Integers read from text\<close>

lemma int_space_isspace: "int_space c \<Longrightarrow> isspace c"
  by (auto simp: int_space_def isspace_def)

lemma digit_char: "d < 10 \<Longrightarrow> is_digit (char_of (48 + d)) \<and> digit_val (char_of (48 + d)) = d"
  by (simp add: is_digit_def digit_val_def Let_def)

lemma digit_not_space: "is_digit c \<Longrightarrow> \<not> isspace c \<and> c \<noteq> CHR ''-'' \<and> c \<noteq> CHR ''+''"
  by (auto simp: is_digit_def isspace_def Let_def)

lemma show_nat_digits: "show_nat n \<noteq> [] \<and> (\<forall>c\<in>set (show_nat n). is_digit c)"
proof (induction n rule: show_nat.induct)
  case (1 n)
  show ?case
  proof (cases "n < 10")
    case True
    then show ?thesis using digit_char [of n] by (subst (1 2) show_nat.simps) simp
  next
    case False
    then show ?thesis
      using 1 digit_char [of "n mod 10"] by (subst (1 2) show_nat.simps) simp
  qed
qed

lemma digits_from_snoc:
  "\<forall>c\<in>set xs. is_digit c \<Longrightarrow> is_digit d \<Longrightarrow>
   digits_from acc (xs @ [d]) = map_option (\<lambda>v. 10 * v + digit_val d) (digits_from acc xs)"
  by (induction xs arbitrary: acc) simp_all

lemma digits_show_nat:
  "\<exists>c cs. show_nat n = c # cs \<and> is_digit c \<and> digits_from (digit_val c) cs = Some n"
proof (induction n rule: show_nat.induct)
  case (1 n)
  show ?case
  proof (cases "n < 10")
    case True
    then show ?thesis using digit_char [of n] by (subst show_nat.simps) simp
  next
    case False
    with 1 obtain c cs where c: "show_nat (n div 10) = c # cs" "is_digit c"
      "digits_from (digit_val c) cs = Some (n div 10)" by auto
    let ?d = "char_of (48 + n mod 10)"
    have d: "is_digit ?d" "digit_val ?d = n mod 10" using digit_char [of "n mod 10"] by simp_all
    have "\<forall>x\<in>set cs. is_digit x" using show_nat_digits [of "n div 10"] c(1) by simp
    from digits_from_snoc [OF this d(1)] c(3) d(2)
    have "digits_from (digit_val c) (cs @ [?d]) = Some n" by simp
    moreover have "show_nat n = c # (cs @ [?d])"
      using False c(1) by (subst show_nat.simps) simp
    ultimately show ?thesis using c(2) by simp
  qed
qed

lemma parse_show_nat:
  "parse_digits (show_nat n) = (if length (show_nat n) \<le> max_str_digits then Some n else None)"
proof -
  from digits_show_nat [of n] obtain c cs where c: "show_nat n = c # cs" "is_digit c"
    "digits_from (digit_val c) cs = Some n" by auto
  have "filter is_digit (show_nat n) = show_nat n"
    using show_nat_digits [of n] by (simp add: filter_id_conv)
  then have "length (filter is_digit (c # cs)) = length (show_nat n)" using c(1) by simp
  then show ?thesis using c unfolding parse_digits_def by (simp del: filter.simps)
qed

lemma show_int_ends:
  "show_int i \<noteq> [] \<and> \<not> isspace (hd (show_int i)) \<and> \<not> isspace (last (show_int i))"
proof -
  have n: "show_nat k \<noteq> [] \<and> \<not> isspace (hd (show_nat k)) \<and> \<not> isspace (last (show_nat k))" for k
    using show_nat_digits [of k] digit_not_space by (metis hd_in_set last_in_set)
  have "\<not> isspace CHR ''-''" by (simp add: isspace_def)
  then show ?thesis using n [of "nat i"] n [of "nat (- i)"] by (simp add: show_int_def)
qed

lemma py_int_show_int:
  "py_int (show_int i)
     = (if length (show_nat (nat \<bar>i\<bar>)) \<le> max_str_digits then Some i else None)"
proof -
  have "rev (dropWhile int_space (rev (dropWhile int_space ([] @ show_int i @ [])))) = show_int i"
    using show_int_ends [of i] int_space_isspace by (intro trim_padded) auto
  then have trim: "rev (dropWhile int_space (rev (dropWhile int_space (show_int i)))) = show_int i"
    by simp
  show ?thesis
  proof (cases "i < 0")
    case True
    then have "show_int i = CHR ''-'' # show_nat (nat \<bar>i\<bar>)" by (simp add: show_int_def)
    then show ?thesis
      using True parse_show_nat [of "nat \<bar>i\<bar>"] unfolding py_int_def trim by simp
  next
    case False
    from digits_show_nat [of "nat i"] obtain c cs where c: "show_nat (nat i) = c # cs" "is_digit c"
      by auto
    then have "c \<noteq> CHR ''-''" "c \<noteq> CHR ''+''" using digit_not_space by auto
    moreover have "show_int i = c # cs" using False c(1) by (simp add: show_int_def)
    moreover have "nat \<bar>i\<bar> = nat i" using False by simp
    ultimately show ?thesis
      using False parse_show_nat [of "nat i"] c(1) unfolding py_int_def trim by simp
  qed
qed

lemma py_int_padded:
  assumes "\<forall>c\<in>set pad1. isspace c" and "\<forall>c\<in>set pad2. isspace c"
  shows "py_int (strip (pad1 @ show_int i @ pad2))
     = (if length (show_nat (nat \<bar>i\<bar>)) \<le> max_str_digits then Some i else None)"
proof -
  have "strip (pad1 @ show_int i @ pad2) = show_int i"
    unfolding strip_def using assms show_int_ends [of i] by (intro trim_padded) auto
  then show ?thesis by (simp add: py_int_show_int)
qed

lemma parse_digits_no_digit: "\<forall>c\<in>set s. \<not> is_digit c \<Longrightarrow> parse_digits s = None"
  by (cases s) (simp_all add: parse_digits_def)

lemma py_int_no_digit:
  assumes "\<forall>c\<in>set s. \<not> is_digit c"
  shows "py_int (strip s) = None"
proof -
  let ?t = "rev (dropWhile int_space (rev (dropWhile int_space (strip s))))"
  have "set ?t \<subseteq> set s"
    unfolding strip_def by (auto dest!: set_dropWhileD)
  with assms have t: "\<forall>c\<in>set ?t. \<not> is_digit c" by auto
  show ?thesis
  proof (cases ?t)
    case Nil
    show ?thesis unfolding py_int_def Nil by simp
  next
    case (Cons c cs)
    with t have "parse_digits cs = None" "parse_digits (c # cs) = None"
      by (simp_all add: parse_digits_no_digit)
    then show ?thesis unfolding py_int_def Cons by simp
  qed
qed

section \<open>The RAM record and the heap flags\<close>

text \<open>
  C9, as the specification states it, fails: not every launch takes its heap flags from
  the RAM record. With the record \<open>8\<close> a launch over a live process raises
  \<open>AttributeError\<close> before it reads the record (see C1), and a launch whose record exists
  but cannot be opened (a directory of that name, say) raises \<open>OSError\<close>, which only the
  \<open>except ValueError\<close> stands against: neither hands any flag to a child.
\<close>

theorem launch_without_heap_flags:
  "is_server_running (supervising obedient done_log)
   \<and> launch_server (server_dir (Text ''8'')) (supervising obedient done_log)
       = Inl AttributeError
   \<and> \<not> is_server_running idle
   \<and> launch_server (server_dir Unreadable) idle = Inl OSError"
  by code_simp

lemma launch_server_idle:
  assumes "\<not> is_server_running r" and "read_ram w r = Inr (ram, r')"
  shows "launch_server w r =
     Inr (case spawn_error w (java_command ram) of
            None \<Rightarrow> r'\<lparr>server_process := Some ((child w)\<lparr>argv := java_command ram\<rparr>),
                       server_output := [], logged := logged r' @ [(INFO, Launched ram)]\<rparr>
          | Some e \<Rightarrow> r'\<lparr>server_process := None, server_output := [],
                        logged := logged r' @ [(ERROR, LaunchFailed e)]\<rparr>)"
  using assms
  by (simp add: launch_server_def stop_running_def popen_def emit_def Let_def
      split: option.splits)

lemma launch_server_unreadable:
  assumes "\<not> is_server_running r" and "ram_txt w = Unreadable"
  shows "launch_server w r = Inl OSError"
  using assms by (simp add: launch_server_def stop_running_def read_ram_def)

lemma default_flags:
  "[''java'', ''-Xmx'' @ show_int 2 @ ''G'', ''-Xms'' @ show_int 2 @ ''G'', ''-jar'',
    ''server.jar'', ''nogui'']
   = [''java'', ''-Xmx2G'', ''-Xms2G'', ''-jar'', ''server.jar'', ''nogui'']"
  by code_simp

text \<open>
  C9, amended. Take a launch that finds no live process. Whether or not the spawn then
  succeeds, the command handed to it carries in both \<open>-Xmx\<close> and \<open>-Xms\<close>
  \<^item> 2, with no warning, when the record is absent;
  \<^item> \<open>n\<close>, with no warning, when \<open>int\<close> reads the stripped record as \<open>n\<close> and
    \<open>n\<close> is at least 1;
  \<^item> 2, with the warning for an invalid value, when \<open>int\<close> reads it as a number below 1;
  \<^item> 2, with the warning for a non-integer, when \<open>int\<close> rejects it;

  and a record that cannot be read makes the launch raise \<open>OSError\<close>. What \<open>int\<close>
  reads is pinned on the decimal numerals: with any white space of \<open>str.isspace\<close>
  around it the numeral of \<open>i\<close> reads as \<open>i\<close> when it has at most 4300 digits and
  is rejected when it has more, and a record without a digit is rejected.
\<close>

theorem launch_heap_flags:
  fixes w :: world and r :: runner
  defines "flags \<equiv> \<lambda>k. [''java'', ''-Xmx'' @ show_int k @ ''G'', ''-Xms'' @ show_int k @ ''G'',
                          ''-jar'', ''server.jar'', ''nogui'']"
  defines "started \<equiv> \<lambda>k warned.
      (case spawn_error w (flags k) of
         None \<Rightarrow> r\<lparr>server_process := Some ((child w)\<lparr>argv := flags k\<rparr>),
                   server_output := [],
                   logged := logged r @ warned @ [(INFO, Launched k)]\<rparr>
       | Some e \<Rightarrow> r\<lparr>server_process := None,
                     server_output := [],
                     logged := logged r @ warned @ [(ERROR, LaunchFailed e)]\<rparr>)"
  defines "white \<equiv> [CHR 0x09, CHR 0x0A, CHR 0x0B, CHR 0x0C, CHR 0x0D, CHR 0x1C, CHR 0x1D,
                      CHR 0x1E, CHR 0x1F, CHR 0x20, CHR 0x85, CHR 0xA0]"
  assumes idle: "\<not> is_server_running r"
  shows
   "(ram_txt w = Missing \<longrightarrow> launch_server w r = Inr (started 2 []))
    \<and> (ram_txt w = Unreadable \<longrightarrow> launch_server w r = Inl OSError)
    \<and> (ram_txt w = Text t \<and> py_int (strip t) = Some n \<and> 1 \<le> n \<longrightarrow>
         launch_server w r = Inr (started n []))
    \<and> (ram_txt w = Text t \<and> py_int (strip t) = Some n \<and> n < 1 \<longrightarrow>
         launch_server w r = Inr (started 2 [(WARNING, InvalidRam)]))
    \<and> (ram_txt w = Text t \<and> py_int (strip t) = None \<longrightarrow>
         launch_server w r = Inr (started 2 [(WARNING, NonIntegerRam)]))
    \<and> flags 2 = [''java'', ''-Xmx2G'', ''-Xms2G'', ''-jar'', ''server.jar'', ''nogui'']
    \<and> (set pad1 \<subseteq> set white \<and> set pad2 \<subseteq> set white \<longrightarrow>
         py_int (strip (pad1 @ show_int i @ pad2))
           = (if length (show_nat (nat \<bar>i\<bar>)) \<le> max_str_digits then Some i else None))
    \<and> ((\<forall>c\<in>set s. \<not> is_digit c) \<longrightarrow> py_int (strip s) = None)"
proof -
  have cmd: "java_command k = flags k" for k by (simp add: java_command_def flags_def)
  have go: "launch_server w r = Inr (started k warned)"
    if "read_ram w r = Inr (k, r\<lparr>logged := logged r @ warned\<rparr>)" for k warned
    using launch_server_idle [OF idle that]
    by (simp add: cmd started_def split: option.splits)
  have 1: "launch_server w r = Inr (started 2 [])" if "ram_txt w = Missing"
    using that by (intro go) (simp add: read_ram_def)
  have 2: "launch_server w r = Inl OSError" if "ram_txt w = Unreadable"
    using idle that by (rule launch_server_unreadable)
  have 3: "launch_server w r = Inr (started n [])"
    if "ram_txt w = Text t" "py_int (strip t) = Some n" "1 \<le> n"
    using that by (intro go) (simp add: read_ram_def)
  have 4: "launch_server w r = Inr (started 2 [(WARNING, InvalidRam)])"
    if "ram_txt w = Text t" "py_int (strip t) = Some n" "n < 1"
    using that by (intro go) (simp add: read_ram_def emit_def)
  have 5: "launch_server w r = Inr (started 2 [(WARNING, NonIntegerRam)])"
    if "ram_txt w = Text t" "py_int (strip t) = None"
    using that by (intro go) (simp add: read_ram_def emit_def)
  have 6: "flags 2 = [''java'', ''-Xmx2G'', ''-Xms2G'', ''-jar'', ''server.jar'', ''nogui'']"
    unfolding flags_def by (rule default_flags)
  have 7: "py_int (strip (pad1 @ show_int i @ pad2))
      = (if length (show_nat (nat \<bar>i\<bar>)) \<le> max_str_digits then Some i else None)"
    if "set pad1 \<subseteq> set white" "set pad2 \<subseteq> set white"
  proof -
    have "isspace c = (c \<in> set white)" for c
      unfolding isspace_def white_def by (rule refl)
    with that show ?thesis by (intro py_int_padded) auto
  qed
  show ?thesis
    using 1 2 3 4 5 6 7 py_int_no_digit [of s] by blast
qed

lemma ram_records:
  "py_int (strip ''8'') = Some 8"
  "py_int (strip ([CHR 0xA0, CHR 0x1C, CHR ''8'', CHR 0x0A])) = Some 8"
  "py_int (strip ''abc'') = None"
  "py_int (strip ''0'') = Some 0"
  "show_int 8 = ''8''"
  "show_int 2 = ''2''"
  by code_simp+

text \<open>
  C9, amended, on the records \<open>8\<close>, \<open>8\<close> after a no-break space and FS and
  before a newline, \<open>8\<close> where the spawn fails, absent, \<open>abc\<close>, \<open>0\<close> and
  unreadable.
\<close>

theorem launch_heap_flags_witness:
  "launch_server (server_dir (Text ''8'')) idle = Inr \<lparr>
      server_process = Some (obedient\<lparr>argv :=
        [''java'', ''-Xmx8G'', ''-Xms8G'', ''-jar'', ''server.jar'', ''nogui'']\<rparr>),
      server_output = [], logged = [(INFO, Launched 8)]\<rparr>
   \<and> launch_server (server_dir (Text [CHR 0xA0, CHR 0x1C, CHR ''8'', CHR 0x0A])) idle = Inr \<lparr>
      server_process = Some (obedient\<lparr>argv :=
        [''java'', ''-Xmx8G'', ''-Xms8G'', ''-jar'', ''server.jar'', ''nogui'']\<rparr>),
      server_output = [], logged = [(INFO, Launched 8)]\<rparr>
   \<and> launch_server ((server_dir (Text ''8''))\<lparr>spawn_error := (\<lambda>cmd. Some OSError)\<rparr>) idle
       = Inr \<lparr>server_process = None, server_output = [],
              logged = [(ERROR, LaunchFailed OSError)]\<rparr>
   \<and> launch_server (server_dir Missing) idle = Inr \<lparr>
      server_process = Some (obedient\<lparr>argv :=
        [''java'', ''-Xmx2G'', ''-Xms2G'', ''-jar'', ''server.jar'', ''nogui'']\<rparr>),
      server_output = [], logged = [(INFO, Launched 2)]\<rparr>
   \<and> launch_server (server_dir (Text ''abc'')) idle = Inr \<lparr>
      server_process = Some (obedient\<lparr>argv :=
        [''java'', ''-Xmx2G'', ''-Xms2G'', ''-jar'', ''server.jar'', ''nogui'']\<rparr>),
      server_output = [], logged = [(WARNING, NonIntegerRam), (INFO, Launched 2)]\<rparr>
   \<and> launch_server (server_dir (Text ''0'')) idle = Inr \<lparr>
      server_process = Some (obedient\<lparr>argv :=
        [''java'', ''-Xmx2G'', ''-Xms2G'', ''-jar'', ''server.jar'', ''nogui'']\<rparr>),
      server_output = [], logged = [(WARNING, InvalidRam), (INFO, Launched 2)]\<rparr>
   \<and> launch_server (server_dir Unreadable) idle = Inl OSError"
proof -
  have idle: "\<not> is_server_running idle" by code_simp
  have w: "spawn_error (server_dir f) = (\<lambda>cmd. None)" "ram_txt (server_dir f) = f"
    "child (server_dir f) = obedient"
    "spawn_error ((server_dir f)\<lparr>spawn_error := (\<lambda>cmd. Some OSError)\<rparr>) = (\<lambda>cmd. Some OSError)"
    "ram_txt ((server_dir f)\<lparr>spawn_error := (\<lambda>cmd. Some OSError)\<rparr>) = f" for f
    by (simp_all add: server_dir_def)
  show ?thesis
    using launch_heap_flags [OF idle, where w = "server_dir (Text ''8'')" and t = "''8''" and n = 8]
      launch_heap_flags [OF idle, where w = "server_dir (Text [CHR 0xA0, CHR 0x1C, CHR ''8'', CHR 0x0A])"
        and t = "[CHR 0xA0, CHR 0x1C, CHR ''8'', CHR 0x0A]" and n = 8]
      launch_heap_flags [OF idle,
        where w = "(server_dir (Text ''8''))\<lparr>spawn_error := (\<lambda>cmd. Some OSError)\<rparr>"
        and t = "''8''" and n = 8]
      launch_heap_flags [OF idle, where w = "server_dir Missing"]
      launch_heap_flags [OF idle, where w = "server_dir (Text ''abc'')" and t = "''abc''"]
      launch_heap_flags [OF idle, where w = "server_dir (Text ''0'')" and t = "''0''" and n = 0]
      launch_heap_flags [OF idle, where w = "server_dir Unreadable"]
    by (simp add: w ram_records idle_def)
qed

end
